theory Spec2Isabelle
  imports Main "HOL-Library.Word"
begin

section \<open>Data model (types.ts)\<close>

text \<open>
  A JavaScript string is a sequence of UTF-16 code units, and \<open>length\<close>, \<open>slice\<close>,
  \<open>lastIndexOf\<close> and indexing all count code units. A string is therefore a list of
  16-bit words.
\<close>

type_synonym code_unit = "16 word"
type_synonym jsstring = "code_unit list"

datatype BlockType = NORMAL | SPECIAL_TRIGGER | POST_SPECIAL

text \<open>
  The interface \<open>TextBlock\<close>. Its fields \<open>id\<close> and \<open>type\<close> are written
  \<open>block_id\<close> and \<open>block_type\<close>: \<open>id\<close> is the identity function of HOL, and the
  second field is renamed alike.
\<close>

record TextBlock =
  block_id :: jsstring
  content :: jsstring
  block_type :: BlockType

section \<open>String primitives of the host language\<close>

definition LF :: code_unit where
  "LF = 0x0A"

definition CR :: code_unit where
  "CR = 0x0D"

text \<open>An ASCII literal as a JavaScript string.\<close>

definition js :: "string \<Rightarrow> jsstring" where
  "js s = map (\<lambda>c. of_nat (of_char c)) s"

text \<open>
  \<open>text.replace(/\r\n/g, '\n')\<close>: one scan from left to right; a match consumes both
  of its code units, and the scan resumes after it on the input (never on the output).
\<close>

fun replace_crlf :: "jsstring \<Rightarrow> jsstring" where
  "replace_crlf (a # b # s) =
     (if a = CR \<and> b = LF then LF # replace_crlf s else a # replace_crlf (b # s))"
| "replace_crlf s = s"

text \<open>
  \<open>s.lastIndexOf(c, p)\<close> for a single code unit \<open>c\<close>: the greatest index \<open>i \<le> p\<close>
  with \<open>s[i] = c\<close>, and \<open>-1\<close> when there is none. Positions beyond the end hold
  nothing.
\<close>

fun lastIndexOf :: "jsstring \<Rightarrow> code_unit \<Rightarrow> nat \<Rightarrow> int" where
  "lastIndexOf s c 0 = (if 0 < length s \<and> s ! 0 = c then 0 else - 1)"
| "lastIndexOf s c (Suc p) =
     (if Suc p < length s \<and> s ! Suc p = c then int (Suc p) else lastIndexOf s c p)"

text \<open>\<open>s.slice(start, stop)\<close>, written \<open>str_slice\<close>, for non-negative arguments; empty when \<open>stop \<le> start\<close>.\<close>

definition str_slice :: "jsstring \<Rightarrow> nat \<Rightarrow> nat \<Rightarrow> jsstring" where
  "str_slice s start stop = take (stop - start) (drop start s)"

text \<open>\<open>s.includes(p)\<close>, written \<open>str_includes\<close>: \<open>p\<close> occurs in \<open>s\<close> as a contiguous substring.\<close>

fun startsWith :: "jsstring \<Rightarrow> jsstring \<Rightarrow> bool" where
  "startsWith s [] = True"
| "startsWith [] (p # ps) = False"
| "startsWith (x # xs) (p # ps) = (x = p \<and> startsWith xs ps)"

fun str_includes :: "jsstring \<Rightarrow> jsstring \<Rightarrow> bool" where
  "str_includes [] p = startsWith [] p"
| "str_includes (x # xs) p = (startsWith (x # xs) p \<or> str_includes xs p)"

text \<open>The decimal rendering of a non-negative integer in a template literal.\<close>

fun toDecimal :: "nat \<Rightarrow> jsstring" where
  "toDecimal n =
     (if n < 10 then [of_nat (48 + n)]
      else toDecimal (n div 10) @ [of_nat (48 + n mod 10)])"

declare toDecimal.simps [simp del]

section \<open>splitText (App.tsx)\<close>

definition MAX_CHARS :: nat where
  "MAX_CHARS = 4950"

text \<open>The literal \<open>'[&$]'\<close> searched for in every chunk.\<close>

definition marker :: jsstring where
  "marker = [0x5B, 0x26, 0x24, 0x5D]"

text \<open>The variables that the \<open>while\<close> loop of \<open>splitText\<close> updates.\<close>

record loop_state =
  currentPos :: nat
  specialTriggered :: bool
  result :: "TextBlock list"

text \<open>
  The boundary \<open>endPos\<close> of the chunk that starts at \<open>currentPos\<close>, with the
  maximum as a parameter in the place of \<open>MAX_CHARS\<close>: the tentative
  boundary \<open>currentPos + MAX_CHARS\<close>, moved back to the last line feed at or before
  it when that line feed lies strictly after \<open>currentPos\<close>, and the end of the text when
  the tentative boundary is not inside the text.
\<close>

definition chunk_end :: "nat \<Rightarrow> jsstring \<Rightarrow> nat \<Rightarrow> nat" where
  "chunk_end maxChars sanitizedText pos =
     (let endPos = pos + maxChars in
      if endPos < length sanitizedText then
        (let lastNewLine = lastIndexOf sanitizedText LF endPos in
         if lastNewLine > int pos then nat lastNewLine else endPos)
      else length sanitizedText)"

text \<open>
  The test \<open>sanitizedText[p] === '\n'\<close>. Reading at or beyond the end of the text
  yields \<open>undefined\<close>, which is not a line feed.
\<close>

definition newline_at :: "jsstring \<Rightarrow> nat \<Rightarrow> bool" where
  "newline_at sanitizedText p = (p < length sanitizedText \<and> sanitizedText ! p = LF)"

text \<open>
  The end of the loop body: \<open>currentPos = endPos\<close>, then one step further when the
  code unit there is a line feed, which thereby belongs to no chunk.
\<close>

definition skip_newline :: "jsstring \<Rightarrow> nat \<Rightarrow> nat" where
  "skip_newline sanitizedText endPos =
     (if newline_at sanitizedText endPos then endPos + 1 else endPos)"

text \<open>One iteration of the loop. The maximum, the marker and the run token are parameters.\<close>

definition loop_body ::
  "nat \<Rightarrow> jsstring \<Rightarrow> jsstring \<Rightarrow> jsstring \<Rightarrow> loop_state \<Rightarrow> loop_state" where
  "loop_body maxChars mark fileId sanitizedText s =
     (let endPos = chunk_end maxChars sanitizedText (currentPos s);
          chunk = str_slice sanitizedText (currentPos s) endPos;
          containsSpecial = str_includes chunk mark;
          (ty, triggered) =
            (if specialTriggered s then (POST_SPECIAL, specialTriggered s)
             else if containsSpecial then (SPECIAL_TRIGGER, True)
             else (NORMAL, specialTriggered s));
          block = \<lparr> block_id = js ''block-'' @ fileId @ js ''-''
                      @ toDecimal (length (result s)) @ js ''-'' @ toDecimal (length chunk),
                    content = chunk,
                    block_type = ty \<rparr>
      in \<lparr> currentPos = skip_newline sanitizedText endPos,
           specialTriggered = triggered,
           result = result s @ [block] \<rparr>)"

text \<open>
  The loop itself. Nothing in the source bounds the number of iterations, so the loop
  is a partial function: \<open>None\<close> stands for a run that never returns.
\<close>

partial_function (option) splitLoop ::
  "nat \<Rightarrow> jsstring \<Rightarrow> jsstring \<Rightarrow> jsstring \<Rightarrow> loop_state \<Rightarrow> TextBlock list option" where
  "splitLoop maxChars mark fileId sanitizedText s =
     (if currentPos s < length sanitizedText
      then splitLoop maxChars mark fileId sanitizedText
             (loop_body maxChars mark fileId sanitizedText s)
      else Some (result s))"

declare splitLoop.simps [code]

text \<open>
  \<open>splitText\<close> with its two constants and the value of \<open>Date.now().toString(36)\<close>
  as parameters, and \<open>splitText\<close> as the source has it.
\<close>

definition splitTextWith ::
  "nat \<Rightarrow> jsstring \<Rightarrow> jsstring \<Rightarrow> jsstring \<Rightarrow> TextBlock list option" where
  "splitTextWith maxChars mark fileId text =
     splitLoop maxChars mark fileId (replace_crlf text)
       \<lparr> currentPos = 0, specialTriggered = False, result = [] \<rparr>"

definition splitText :: "jsstring \<Rightarrow> jsstring \<Rightarrow> TextBlock list option" where
  "splitText fileId text = splitTextWith MAX_CHARS marker fileId text"

section \<open>Notions of the specification\<close>

text \<open>
  The three ways in which \<open>chunk_end\<close> settles a boundary, named as the specification
  names them: a soft break at a line feed inside the window, a hard break at the full
  window, and the terminal chunk that runs to the end of the text. The conditions are
  those of \<open>chunk_end\<close>.
\<close>

datatype break_kind = Soft | Hard | Terminal

definition break_kind_at :: "nat \<Rightarrow> jsstring \<Rightarrow> nat \<Rightarrow> break_kind" where
  "break_kind_at maxChars sanitizedText pos =
     (if pos + maxChars < length sanitizedText then
        (if lastIndexOf sanitizedText LF (pos + maxChars) > int pos then Soft else Hard)
      else Terminal)"

text \<open>
  Putting the text together again from the contents of the blocks: the contents in
  order, and after each of them one line feed exactly when the loop stepped over one at
  that boundary. The boundaries are those the loop visits, starting at \<open>pos\<close>.
\<close>

fun rejoin :: "nat \<Rightarrow> jsstring \<Rightarrow> nat \<Rightarrow> jsstring list \<Rightarrow> jsstring" where
  "rejoin maxChars sanitizedText pos [] = []"
| "rejoin maxChars sanitizedText pos (c # cs) =
     (let endPos = chunk_end maxChars sanitizedText pos
      in c @ (if newline_at sanitizedText endPos then [LF] else [])
           @ rejoin maxChars sanitizedText (skip_newline sanitizedText endPos) cs)"

text \<open>What the properties below compare of a block: its content and its category.\<close>

definition content_and_type :: "TextBlock \<Rightarrow> jsstring \<times> BlockType" where
  "content_and_type b = (content b, block_type b)"

text \<open>
  The text of the third scenario of the specification:
  \<open>aaaaa\<close>, a line feed, \<open>bbbbb[&$]cc\<close>, a line feed, \<open>ddddd\<close>.
\<close>

definition scenario_text :: jsstring where
  "scenario_text = js ''aaaaa'' @ [LF] @ js ''bbbbb[&$]cc'' @ [LF] @ js ''ddddd''"

text \<open>
  A text that begins with two line feeds, has two in a row inside, and ends with one.
\<close>

definition newline_text :: jsstring where
  "newline_text = [LF, LF] @ js ''ab'' @ [LF, LF] @ js ''cdefgh'' @ [LF]"

section \<open>Facts about the primitives and one iteration\<close>

lemma lastIndexOf_bounds: "- 1 \<le> lastIndexOf s c p \<and> lastIndexOf s c p \<le> int p"
  by (induction p) auto

lemma lastIndexOf_hit:
  "0 \<le> lastIndexOf s c p \<Longrightarrow>
     nat (lastIndexOf s c p) < length s \<and> s ! nat (lastIndexOf s c p) = c"
  by (induction p) (auto split: if_splits simp: nat_add_distrib)

lemma lastIndexOf_greatest:
  "lastIndexOf s c p < int i \<Longrightarrow> i \<le> p \<Longrightarrow> i < length s \<Longrightarrow> s ! i \<noteq> c"
proof (induction p)
  case 0
  then show ?case by (auto split: if_splits)
next
  case (Suc p)
  show ?case
  proof (cases "i = Suc p")
    case True
    with Suc.prems show ?thesis by (auto split: if_splits)
  next
    case False
    with Suc.prems have "i \<le> p" by simp
    moreover from Suc.prems have "lastIndexOf s c p < int i"
      by (auto split: if_splits)
    ultimately show ?thesis using Suc.IH Suc.prems(3) by blast
  qed
qed

lemma chunk_end_gt:
  assumes "1 \<le> m" and "pos < length t"
  shows "pos < chunk_end m t pos"
  using assms by (auto simp: chunk_end_def Let_def)

lemma chunk_end_le_length: "chunk_end m t pos \<le> length t"
  using lastIndexOf_bounds [of t LF "pos + m"]
  by (auto simp: chunk_end_def Let_def)

lemma chunk_end_le_max: "pos < length t \<Longrightarrow> chunk_end m t pos \<le> pos + m"
  using lastIndexOf_bounds [of t LF "pos + m"]
  by (auto simp: chunk_end_def Let_def)

lemma skip_newline_bounds:
  "e \<le> skip_newline t e \<and> skip_newline t e \<le> Suc e
     \<and> (e \<le> length t \<longrightarrow> skip_newline t e \<le> length t)"
  by (simp add: skip_newline_def newline_at_def)

lemma currentPos_loop_body [simp]:
  "currentPos (loop_body m mk f t s) = skip_newline t (chunk_end m t (currentPos s))"
  by (simp add: loop_body_def Let_def split: prod.splits)

lemma loop_body_advances:
  assumes "1 \<le> m" and "currentPos s < length t"
  shows "currentPos s < currentPos (loop_body m mk f t s)"
  using chunk_end_gt [OF assms] skip_newline_bounds [of "chunk_end m t (currentPos s)" t]
  by simp

lemma loop_body_in_text:
  "currentPos (loop_body m mk f t s) \<le> length t"
  using chunk_end_le_length [of m t "currentPos s"]
    skip_newline_bounds [of "chunk_end m t (currentPos s)" t]
  by simp

lemma splitLoop_rule:
  assumes m: "1 \<le> m"
    and init: "I s"
    and step: "\<And>s. I s \<Longrightarrow> currentPos s < length t \<Longrightarrow> I (loop_body m mk f t s)"
  shows "\<exists>s'. splitLoop m mk f t s = Some (result s') \<and> I s' \<and> length t \<le> currentPos s'"
  using init
proof (induction "length t - currentPos s" arbitrary: s rule: less_induct)
  case less
  show ?case
  proof (cases "currentPos s < length t")
    case False
    then have "splitLoop m mk f t s = Some (result s)"
      by (subst splitLoop.simps) simp
    with False less.prems show ?thesis by auto
  next
    case True
    let ?s = "loop_body m mk f t s"
    have "length t - currentPos ?s < length t - currentPos s"
      using loop_body_advances [OF m True, of mk f] True by linarith
    moreover have "I ?s" using step less.prems True by blast
    ultimately obtain s' where
      "splitLoop m mk f t ?s = Some (result s') \<and> I s' \<and> length t \<le> currentPos s'"
      using less.hyps by blast
    moreover have "splitLoop m mk f t s = splitLoop m mk f t ?s"
      using True by (subst splitLoop.simps) simp
    ultimately show ?thesis by auto
  qed
qed

lemma length_slice: "stop \<le> length t \<Longrightarrow> length (str_slice t start stop) = stop - start"
  by (simp add: str_slice_def)

lemma result_loop_body:
  "result (loop_body m mk f t s) = result s @
     [\<lparr> block_id = js ''block-'' @ f @ js ''-'' @ toDecimal (length (result s)) @ js ''-''
          @ toDecimal (length (str_slice t (currentPos s) (chunk_end m t (currentPos s)))),
        content = str_slice t (currentPos s) (chunk_end m t (currentPos s)),
        block_type =
          (if specialTriggered s then POST_SPECIAL
           else if str_includes (str_slice t (currentPos s) (chunk_end m t (currentPos s))) mk
           then SPECIAL_TRIGGER else NORMAL) \<rparr>]"
  by (simp add: loop_body_def Let_def split: prod.splits)

lemma specialTriggered_loop_body:
  "specialTriggered (loop_body m mk f t s) =
     (specialTriggered s \<or> str_includes (str_slice t (currentPos s) (chunk_end m t (currentPos s))) mk)"
  by (simp add: loop_body_def Let_def split: prod.splits)

lemma splitTextWith_rule:
  assumes "1 \<le> m"
    and "I \<lparr> currentPos = 0, specialTriggered = False, result = [] \<rparr>"
    and "\<And>s. I s \<Longrightarrow> currentPos s < length (replace_crlf text)
           \<Longrightarrow> I (loop_body m mk f (replace_crlf text) s)"
  shows "\<exists>s'. splitTextWith m mk f text = Some (result s') \<and> I s'
           \<and> length (replace_crlf text) \<le> currentPos s'"
  unfolding splitTextWith_def using assms by (rule splitLoop_rule)

lemma soft_break:
  assumes "break_kind_at m t pos = Soft"
  shows "pos < chunk_end m t pos \<and> chunk_end m t pos \<le> pos + m \<and> newline_at t (chunk_end m t pos)"
proof -
  from assms have a: "pos + m < length t" and b: "int pos < lastIndexOf t LF (pos + m)"
    by (auto simp: break_kind_at_def split: if_splits)
  then have e: "chunk_end m t pos = nat (lastIndexOf t LF (pos + m))"
    by (simp add: chunk_end_def Let_def)
  from b have "0 \<le> lastIndexOf t LF (pos + m)" by simp
  from lastIndexOf_hit [OF this] lastIndexOf_bounds [of t LF "pos + m"] b e
  show ?thesis by (auto simp: newline_at_def)
qed

lemma hard_break:
  assumes "1 \<le> m" and "break_kind_at m t pos = Hard"
  shows "chunk_end m t pos = pos + m \<and> \<not> newline_at t (chunk_end m t pos)"
proof -
  from assms(2) have a: "pos + m < length t" and b: "\<not> int pos < lastIndexOf t LF (pos + m)"
    by (auto simp: break_kind_at_def split: if_splits)
  then have e: "chunk_end m t pos = pos + m"
    by (simp add: chunk_end_def Let_def)
  have "lastIndexOf t LF (pos + m) < int (pos + m)" using b assms(1) by simp
  from lastIndexOf_greatest [OF this _ a] e show ?thesis
    by (simp add: newline_at_def)
qed

lemma terminal_break:
  assumes "break_kind_at m t pos = Terminal"
  shows "chunk_end m t pos = length t \<and> \<not> newline_at t (chunk_end m t pos)"
  using assms by (auto simp: break_kind_at_def chunk_end_def Let_def newline_at_def split: if_splits)

lemma swallowed_iff_soft:
  assumes "1 \<le> m"
  shows "newline_at t (chunk_end m t pos) = (break_kind_at m t pos = Soft)"
  using soft_break [of m t pos] hard_break [OF assms, of t pos] terminal_break [of m t pos]
  by (cases "break_kind_at m t pos") auto

lemma splitLoop_token:
  assumes m: "1 \<le> m"
    and "currentPos s1 = currentPos s2"
    and "specialTriggered s1 = specialTriggered s2"
    and "map content_and_type (result s1) = map content_and_type (result s2)"
  shows "map_option (map content_and_type) (splitLoop m mk f1 t s1)
           = map_option (map content_and_type) (splitLoop m mk f2 t s2)"
  using assms(2-)
proof (induction "length t - currentPos s1" arbitrary: s1 s2 rule: less_induct)
  case less
  show ?case
  proof (cases "currentPos s1 < length t")
    case False
    then have "splitLoop m mk f1 t s1 = Some (result s1)"
      by (subst splitLoop.simps) simp
    moreover from False less.prems have "splitLoop m mk f2 t s2 = Some (result s2)"
      by (subst splitLoop.simps) simp
    ultimately show ?thesis using less.prems by simp
  next
    case True
    let ?s1 = "loop_body m mk f1 t s1" and ?s2 = "loop_body m mk f2 t s2"
    have "length t - currentPos ?s1 < length t - currentPos s1"
      using loop_body_advances [OF m True, of mk f1] True by linarith
    moreover have "currentPos ?s1 = currentPos ?s2" using less.prems by simp
    moreover have "specialTriggered ?s1 = specialTriggered ?s2"
      using less.prems by (simp add: specialTriggered_loop_body)
    moreover have "map content_and_type (result ?s1) = map content_and_type (result ?s2)"
      using less.prems by (simp add: result_loop_body content_and_type_def)
    ultimately have "map_option (map content_and_type) (splitLoop m mk f1 t ?s1)
           = map_option (map content_and_type) (splitLoop m mk f2 t ?s2)"
      by (rule less.hyps)
    moreover have "splitLoop m mk f1 t s1 = splitLoop m mk f1 t ?s1"
      using True by (subst splitLoop.simps) simp
    moreover have "splitLoop m mk f2 t s2 = splitLoop m mk f2 t ?s2"
      using True less.prems by (subst splitLoop.simps) simp
    ultimately show ?thesis by simp
  qed
qed

lemma take_slice:
  assumes "pos \<le> e" and "e \<le> length t"
  shows "take pos t @ str_slice t pos e = take e t"
proof -
  have "take e t = take (pos + (e - pos)) t" using assms by simp
  also have "\<dots> = take pos t @ take (e - pos) (drop pos t)" by (rule take_add)
  finally show ?thesis by (simp add: str_slice_def)
qed

lemma take_skip_newline:
  assumes "e \<le> length t"
  shows "take e t @ (if newline_at t e then [LF] else []) = take (skip_newline t e) t"
  using assms by (auto simp: skip_newline_def newline_at_def take_Suc_conv_app_nth)

section \<open>Facts about normalization and substring search\<close>

lemma CR_neq_LF: "CR \<noteq> LF" "LF \<noteq> CR"
  by (simp_all add: CR_def LF_def)

lemma startsWith_iff: "startsWith s p = (\<exists>b. s = p @ b)"
  by (induction s p rule: startsWith.induct) auto

lemma str_includes_iff: "str_includes s p = (\<exists>a b. s = a @ p @ b)"
proof (induction s)
  case Nil
  then show ?case by (simp add: startsWith_iff)
next
  case (Cons x xs)
  show ?case
  proof
    assume "str_includes (x # xs) p"
    then consider "startsWith (x # xs) p" | "str_includes xs p" by auto
    then show "\<exists>a b. x # xs = a @ p @ b"
    proof cases
      case 1
      then obtain b where "x # xs = [] @ p @ b" by (auto simp: startsWith_iff)
      then show ?thesis by blast
    next
      case 2
      with Cons.IH obtain a b where "xs = a @ p @ b" by blast
      then have "x # xs = (x # a) @ p @ b" by simp
      then show ?thesis by blast
    qed
  next
    assume "\<exists>a b. x # xs = a @ p @ b"
    then obtain a b where ab: "x # xs = a @ p @ b" by blast
    show "str_includes (x # xs) p"
    proof (cases a)
      case Nil
      with ab have "startsWith (x # xs) p" by (auto simp: startsWith_iff)
      then show ?thesis by simp
    next
      case (Cons y ys)
      with ab have "xs = ys @ p @ b" by simp
      with Cons.IH have "str_includes xs p" by blast
      then show ?thesis by simp
    qed
  qed
qed

lemma replace_crlf_at_match:
  "replace_crlf (a @ [CR, LF] @ b) = replace_crlf a @ [LF] @ replace_crlf b"
  by (induction a rule: replace_crlf.induct) (auto simp: CR_neq_LF)

lemma replace_crlf_no_match:
  "\<not> str_includes t [CR, LF] \<Longrightarrow> replace_crlf t = t"
  by (induction t rule: replace_crlf.induct) auto

lemma replace_crlf_head:
  "startsWith (replace_crlf (b # s)) [LF] = (b = LF \<or> (b = CR \<and> startsWith s [LF]))"
  by (cases s) (auto simp: CR_neq_LF)

lemma replace_crlf_leaves_crlf:
  "str_includes (replace_crlf t) [CR, LF] = str_includes t [CR, CR, LF]"
proof (induction t rule: replace_crlf.induct)
  case (1 a b s)
  show ?case
  proof (cases "a = CR \<and> b = LF")
    case True
    with 1 show ?thesis by (simp add: CR_neq_LF)
  next
    case False
    have "startsWith (a # replace_crlf (b # s)) [CR, LF]
            = (a = CR \<and> startsWith (replace_crlf (b # s)) [LF])"
      by (cases "replace_crlf (b # s)") auto
    also have "\<dots> = startsWith (a # b # s) [CR, CR, LF]"
      using False by (cases s) (auto simp: replace_crlf_head CR_neq_LF)
    finally show ?thesis using False 1 by auto
  qed
qed simp_all

section \<open>A marker cut by a hard break\<close>

lemma lastIndexOf_absent: "c \<notin> set s \<Longrightarrow> lastIndexOf s c p = - 1"
  by (induction p) auto

lemma replace_crlf_no_CR: "CR \<notin> set t \<Longrightarrow> replace_crlf t = t"
  by (induction t rule: replace_crlf.induct) auto

lemma no_marker_in_prefix:
  "\<not> str_includes (replicate n 0x61 @ [0x5B, 0x26]) marker"
  by (induction n) (simp_all add: marker_def)

lemma marker_across_hard_break:
  fixes m :: nat
  assumes m: "2 \<le> m"
  defines "t \<equiv> replicate (m - 2) 0x61 @ marker"
  shows "replace_crlf t = t"
    and "map_option (map content_and_type) (splitTextWith m marker f t)
           = Some [(replicate (m - 2) 0x61 @ [0x5B, 0x26], NORMAL), ([0x24, 0x5D], NORMAL)]"
proof -
  let ?s0 = "\<lparr> currentPos = 0, specialTriggered = False, result = [] \<rparr>"
  let ?s1 = "loop_body m marker f t ?s0"
  let ?s2 = "loop_body m marker f t ?s1"
  have len: "length t = m + 2" using m by (simp add: t_def marker_def)
  have "set t \<subseteq> {0x61, 0x5B, 0x26, 0x24, 0x5D}" by (auto simp: t_def marker_def)
  then have noLF: "LF \<notin> set t" and noCR: "CR \<notin> set t"
    by (auto simp: LF_def CR_def)
  show san: "replace_crlf t = t" using noCR by (rule replace_crlf_no_CR)
  have noNL: "\<not> newline_at t p" for p
    using noLF by (auto simp: newline_at_def in_set_conv_nth)
  have e0: "chunk_end m t 0 = m"
    using m len by (simp add: chunk_end_def Let_def lastIndexOf_absent [OF noLF])
  have c0: "str_slice t 0 m = replicate (m - 2) 0x61 @ [0x5B, 0x26]"
    using m by (simp add: str_slice_def t_def marker_def)
  have p1: "currentPos ?s1 = m" by (simp add: e0 skip_newline_def noNL)
  have t1: "\<not> specialTriggered ?s1"
    by (simp add: specialTriggered_loop_body e0 c0 no_marker_in_prefix)
  have r1: "map content_and_type (result ?s1) = [(replicate (m - 2) 0x61 @ [0x5B, 0x26], NORMAL)]"
    by (simp add: result_loop_body e0 c0 no_marker_in_prefix content_and_type_def)
  have e1: "chunk_end m t m = m + 2"
    using m len by (simp add: chunk_end_def Let_def)
  have c1: "str_slice t m (m + 2) = [0x24, 0x5D]"
    using m by (simp add: str_slice_def t_def marker_def)
  have nm: "\<not> str_includes [0x24, 0x5D] marker" by (simp add: marker_def)
  have p2: "currentPos ?s2 = m + 2" by (simp add: e0 e1 skip_newline_def noNL)
  have r2: "map content_and_type (result ?s2)
              = [(replicate (m - 2) 0x61 @ [0x5B, 0x26], NORMAL), ([0x24, 0x5D], NORMAL)]"
    using r1 t1
    by (simp add: result_loop_body [of m marker f t ?s1] e0 skip_newline_def noNL e1 c1 [simplified]
          nm [simplified] content_and_type_def)
  have "splitLoop m marker f t ?s0 = splitLoop m marker f t ?s1"
    using len by (subst splitLoop.simps) simp
  also have "\<dots> = splitLoop m marker f t ?s2"
    using len p1 by (subst splitLoop.simps) simp
  also have "\<dots> = Some (result ?s2)"
    using len p2 by (subst splitLoop.simps) simp
  finally show "map_option (map content_and_type) (splitTextWith m marker f t)
           = Some [(replicate (m - 2) 0x61 @ [0x5B, 0x26], NORMAL), ([0x24, 0x5D], NORMAL)]"
    using r2 by (simp add: splitTextWith_def san)
qed

section \<open>The scenario of the specification, run\<close>

lemma scenario_run:
  "map_option (map content_and_type) (splitTextWith 5 marker fileId scenario_text)
   = Some [(js ''aaaaa'', NORMAL), (js ''bbbbb'', NORMAL), (js ''[&$]c'', SPECIAL_TRIGGER),
           (js ''c'', POST_SPECIAL), (js ''ddddd'', POST_SPECIAL)]"
  by code_simp

lemma scenario_normalized: "replace_crlf scenario_text = scenario_text"
  by code_simp

lemma five_positive: "(1::nat) \<le> 5"
  by simp

section \<open>Properties of splitText\<close>

text \<open>
  The properties are stated of \<open>splitTextWith\<close>, for every maximum of at least 1 and
  every marker. \<open>splitText\<close> is \<open>splitTextWith\<close> at the maximum 4950 and the marker
  \<open>[&$]\<close>, so each of them holds of \<open>splitText\<close>.
\<close>

lemma MAX_CHARS_positive: "1 \<le> MAX_CHARS"
  by (simp add: MAX_CHARS_def)

text \<open>
  C1 (coverage). For every text and every maximum of at least 1, \<open>splitText\<close> returns
  blocks whose contents, taken in order, with one line feed put back after a block
  exactly where the loop stepped over one, give the normalized text. The loop steps over
  a line feed at a boundary exactly when that boundary is a soft break; at a hard break
  and after the terminal chunk nothing is put back.
\<close>

theorem rejoin_restores_text:
  assumes "1 \<le> maxChars"
  shows "\<exists>blocks. splitTextWith maxChars mark fileId text = Some blocks
           \<and> rejoin maxChars (replace_crlf text) 0 (map content blocks) = replace_crlf text
           \<and> (\<forall>pos. newline_at (replace_crlf text) (chunk_end maxChars (replace_crlf text) pos)
                     = (break_kind_at maxChars (replace_crlf text) pos = Soft))"
proof -
  let ?t = "replace_crlf text"
  let ?I = "\<lambda>s::loop_state. currentPos s \<le> length ?t \<and>
     (\<forall>cs. rejoin maxChars ?t 0 (map content (result s) @ cs)
            = take (currentPos s) ?t @ rejoin maxChars ?t (currentPos s) cs)"
  have "\<exists>s'::loop_state. splitTextWith maxChars mark fileId text = Some (result s') \<and> ?I s'
          \<and> length ?t \<le> currentPos s'"
  proof (rule splitTextWith_rule [where I = ?I, OF assms])
    show "?I \<lparr> currentPos = 0, specialTriggered = False, result = [] \<rparr>" by simp
  next
    fix s :: loop_state
    assume inv: "?I s" and run: "currentPos s < length ?t"
    let ?e = "chunk_end maxChars ?t (currentPos s)"
    let ?s = "loop_body maxChars mark fileId ?t s"
    have e: "currentPos s \<le> ?e" "?e \<le> length ?t"
      using chunk_end_gt [OF assms run] chunk_end_le_length [of maxChars ?t "currentPos s"]
      by simp_all
    have "rejoin maxChars ?t 0 (map content (result ?s) @ cs)
            = take (skip_newline ?t ?e) ?t @ rejoin maxChars ?t (skip_newline ?t ?e) cs" for cs
    proof -
      have "rejoin maxChars ?t 0 (map content (result ?s) @ cs)
              = rejoin maxChars ?t 0 (map content (result s) @ str_slice ?t (currentPos s) ?e # cs)"
        by (simp add: result_loop_body)
      also have "\<dots> = take (currentPos s) ?t
                          @ rejoin maxChars ?t (currentPos s) (str_slice ?t (currentPos s) ?e # cs)"
        using inv by blast
      also have "\<dots> = (take (currentPos s) ?t @ str_slice ?t (currentPos s) ?e)
                          @ (if newline_at ?t ?e then [LF] else [])
                          @ rejoin maxChars ?t (skip_newline ?t ?e) cs"
        by (simp add: Let_def)
      also have "\<dots> = (take ?e ?t @ (if newline_at ?t ?e then [LF] else []))
                          @ rejoin maxChars ?t (skip_newline ?t ?e) cs"
        using take_slice [OF e] by simp
      also have "\<dots> = take (skip_newline ?t ?e) ?t @ rejoin maxChars ?t (skip_newline ?t ?e) cs"
        using take_skip_newline [OF e(2)] by simp
      finally show ?thesis .
    qed
    then show "?I ?s"
      using loop_body_in_text [of maxChars mark fileId ?t s] by simp
  qed
  then obtain s' :: loop_state
    where r: "splitTextWith maxChars mark fileId text = Some (result s')"
      and i: "?I s'" and fin: "length ?t \<le> currentPos s'" by blast
  from i have "rejoin maxChars ?t 0 (map content (result s') @ [])
                 = take (currentPos s') ?t @ rejoin maxChars ?t (currentPos s') []"
    by blast
  with fin have "rejoin maxChars ?t 0 (map content (result s')) = ?t" by simp
  with r swallowed_iff_soft [OF assms, of ?t] show ?thesis by simp
qed

theorem rejoin_restores_text_witness:
  "(1::nat) \<le> 5
   \<and> (\<exists>blocks. splitTextWith 5 marker (js ''t'') scenario_text = Some blocks
         \<and> map content blocks = [js ''aaaaa'', js ''bbbbb'', js ''[&$]c'', js ''c'', js ''ddddd'']
         \<and> rejoin 5 scenario_text 0 (map content blocks) = scenario_text)
   \<and> break_kind_at 5 scenario_text 0 = Soft \<and> newline_at scenario_text (chunk_end 5 scenario_text 0)
   \<and> break_kind_at 5 scenario_text 6 = Hard
   \<and> newline_at scenario_text (chunk_end 5 scenario_text 6) = False"
proof -
  from rejoin_restores_text [OF five_positive, of marker "js ''t''" scenario_text]
  obtain blocks where r: "splitTextWith 5 marker (js ''t'') scenario_text = Some blocks"
    and j: "rejoin 5 scenario_text 0 (map content blocks) = scenario_text"
    and k: "\<forall>pos. newline_at scenario_text (chunk_end 5 scenario_text pos)
                     = (break_kind_at 5 scenario_text pos = Soft)"
    unfolding scenario_normalized by blast
  from r scenario_run [of "js ''t''"]
  have "map content_and_type blocks
         = [(js ''aaaaa'', NORMAL), (js ''bbbbb'', NORMAL), (js ''[&$]c'', SPECIAL_TRIGGER),
            (js ''c'', POST_SPECIAL), (js ''ddddd'', POST_SPECIAL)]"
    by simp
  then have "map (fst \<circ> content_and_type) blocks
         = map fst [(js ''aaaaa'', NORMAL), (js ''bbbbb'', NORMAL), (js ''[&$]c'', SPECIAL_TRIGGER),
            (js ''c'', POST_SPECIAL), (js ''ddddd'', POST_SPECIAL)]"
    by (simp only: map_map [symmetric])
  then have c: "map content blocks
         = [js ''aaaaa'', js ''bbbbb'', js ''[&$]c'', js ''c'', js ''ddddd'']"
    by (simp add: comp_def content_and_type_def)
  have s: "break_kind_at 5 scenario_text 0 = Soft" by code_simp
  have h: "break_kind_at 5 scenario_text 6 = Hard" by code_simp
  from k s have ns: "newline_at scenario_text (chunk_end 5 scenario_text 0)" by simp
  from k h have nh: "newline_at scenario_text (chunk_end 5 scenario_text 6) = False" by simp
  have "\<exists>blocks. splitTextWith 5 marker (js ''t'') scenario_text = Some blocks
         \<and> map content blocks = [js ''aaaaa'', js ''bbbbb'', js ''[&$]c'', js ''c'', js ''ddddd'']
         \<and> rejoin 5 scenario_text 0 (map content blocks) = scenario_text"
    by (rule exI [of _ blocks]) (intro conjI r c j)
  then show ?thesis by (intro conjI five_positive s ns h nh)
qed

text \<open>
  C2 (length bound). For every text and every maximum of at least 1, \<open>splitText\<close>
  returns blocks each of which has a content of at most the maximum number of code
  units. This holds of every block, the last one included, so in particular of every
  block but the last.
\<close>

theorem block_length_bound:
  assumes "1 \<le> maxChars"
  shows "\<exists>blocks. splitTextWith maxChars mark fileId text = Some blocks
           \<and> (\<forall>b \<in> set blocks. length (content b) \<le> maxChars)"
proof -
  let ?t = "replace_crlf text"
  let ?I = "\<lambda>s::loop_state. \<forall>b \<in> set (result s). length (content b) \<le> maxChars"
  have "\<exists>s'::loop_state. splitTextWith maxChars mark fileId text = Some (result s') \<and> ?I s'
          \<and> length ?t \<le> currentPos s'"
  proof (rule splitTextWith_rule [where I = ?I, OF assms])
    show "?I \<lparr> currentPos = 0, specialTriggered = False, result = [] \<rparr>" by simp
  next
    fix s :: loop_state
    assume inv: "?I s" and run: "currentPos s < length ?t"
    have "length (str_slice ?t (currentPos s) (chunk_end maxChars ?t (currentPos s))) \<le> maxChars"
      using chunk_end_le_max [OF run, of maxChars]
        chunk_end_le_length [of maxChars ?t "currentPos s"]
      by (simp add: length_slice)
    with inv show "?I (loop_body maxChars mark fileId ?t s)"
      by (auto simp: result_loop_body)
  qed
  then show ?thesis by blast
qed

theorem block_length_bound_witness:
  "(1::nat) \<le> 5
   \<and> (\<exists>blocks. splitTextWith 5 marker (js ''t'') scenario_text = Some blocks
         \<and> length blocks = 5
         \<and> length (content (blocks ! 0)) \<le> 5 \<and> length (content (blocks ! 3)) \<le> 5)"
proof -
  from block_length_bound [OF five_positive, of marker "js ''t''" scenario_text]
  obtain blocks where r: "splitTextWith 5 marker (js ''t'') scenario_text = Some blocks"
    and b: "\<forall>b \<in> set blocks. length (content b) \<le> 5"
    by blast
  from r scenario_run [of "js ''t''"] have "length (map content_and_type blocks) = 5"
    by simp
  then have n: "length blocks = 5" by simp
  then have "blocks ! 0 \<in> set blocks" and "blocks ! 3 \<in> set blocks" by simp_all
  with b have b0: "length (content (blocks ! 0)) \<le> 5"
    and b3: "length (content (blocks ! 3)) \<le> 5"
    by blast+
  have "\<exists>blocks. splitTextWith 5 marker (js ''t'') scenario_text = Some blocks
         \<and> length blocks = 5
         \<and> length (content (blocks ! 0)) \<le> 5 \<and> length (content (blocks ! 3)) \<le> 5"
    by (rule exI [of _ blocks]) (intro conjI r n b0 b3)
  then show ?thesis by (intro conjI five_positive)
qed

text \<open>
  C3 (classification). For every text and every maximum of at least 1, the categories
  of the blocks that \<open>splitText\<close> returns are some number of \<open>NORMAL\<close>, and then
  either nothing, or one \<open>SPECIAL_TRIGGER\<close> followed by \<open>POST_SPECIAL\<close> only.
\<close>

theorem category_pattern:
  assumes "1 \<le> maxChars"
  shows "\<exists>blocks. splitTextWith maxChars mark fileId text = Some blocks
           \<and> (\<exists>n k. map block_type blocks = replicate n NORMAL
                 \<or> map block_type blocks
                     = replicate n NORMAL @ SPECIAL_TRIGGER # replicate k POST_SPECIAL)"
proof -
  let ?t = "replace_crlf text"
  let ?I = "\<lambda>s::loop_state.
     if specialTriggered s
     then \<exists>n k. map block_type (result s)
            = replicate n NORMAL @ SPECIAL_TRIGGER # replicate k POST_SPECIAL
     else \<exists>n. map block_type (result s) = replicate n NORMAL"
  have "\<exists>s'::loop_state. splitTextWith maxChars mark fileId text = Some (result s') \<and> ?I s'
          \<and> length ?t \<le> currentPos s'"
  proof (rule splitTextWith_rule [where I = ?I, OF assms])
    show "?I \<lparr> currentPos = 0, specialTriggered = False, result = [] \<rparr>" by simp
  next
    fix s :: loop_state
    assume inv: "?I s" and run: "currentPos s < length ?t"
    let ?chunk = "str_slice ?t (currentPos s) (chunk_end maxChars ?t (currentPos s))"
    let ?s = "loop_body maxChars mark fileId ?t s"
    show "?I ?s"
    proof (cases "specialTriggered s")
      case True
      with inv obtain n k where
        "map block_type (result s)
           = replicate n NORMAL @ SPECIAL_TRIGGER # replicate k POST_SPECIAL"
        by auto
      then have "map block_type (result ?s)
                   = replicate n NORMAL @ SPECIAL_TRIGGER # replicate (Suc k) POST_SPECIAL"
        using True by (simp add: result_loop_body replicate_append_same)
      then show ?thesis
        using True by (auto simp: specialTriggered_loop_body simp del: replicate_Suc)
    next
      case False
      with inv obtain n where n: "map block_type (result s) = replicate n NORMAL" by auto
      show ?thesis
      proof (cases "str_includes ?chunk mark")
        case True
        with n False have "map block_type (result ?s)
                   = replicate n NORMAL @ SPECIAL_TRIGGER # replicate 0 POST_SPECIAL"
          by (simp add: result_loop_body)
        then show ?thesis
          using True
          by (auto simp: specialTriggered_loop_body simp del: replicate_0 replicate.simps)
      next
        case no: False
        with n False have "map block_type (result ?s) = replicate (Suc n) NORMAL"
          by (simp add: result_loop_body replicate_append_same)
        then show ?thesis
          using no False by (auto simp: specialTriggered_loop_body simp del: replicate_Suc)
      qed
    qed
  qed
  then obtain s' :: loop_state where
    "splitTextWith maxChars mark fileId text = Some (result s')" and "?I s'" by blast
  then show ?thesis by (cases "specialTriggered s'") auto
qed

theorem category_pattern_witness:
  "(1::nat) \<le> 5
   \<and> (\<exists>blocks. splitTextWith 5 marker (js ''t'') scenario_text = Some blocks
         \<and> map block_type blocks
             = [NORMAL, NORMAL, SPECIAL_TRIGGER, POST_SPECIAL, POST_SPECIAL]
         \<and> (\<exists>n k. map block_type blocks = replicate n NORMAL
               \<or> map block_type blocks
                   = replicate n NORMAL @ SPECIAL_TRIGGER # replicate k POST_SPECIAL))"
proof -
  from category_pattern [OF five_positive, of marker "js ''t''" scenario_text]
  obtain blocks where r: "splitTextWith 5 marker (js ''t'') scenario_text = Some blocks"
    and p: "\<exists>n k. map block_type blocks = replicate n NORMAL
               \<or> map block_type blocks
                   = replicate n NORMAL @ SPECIAL_TRIGGER # replicate k POST_SPECIAL"
    by blast
  from r scenario_run [of "js ''t''"]
  have "map content_and_type blocks
         = [(js ''aaaaa'', NORMAL), (js ''bbbbb'', NORMAL), (js ''[&$]c'', SPECIAL_TRIGGER),
            (js ''c'', POST_SPECIAL), (js ''ddddd'', POST_SPECIAL)]"
    by simp
  then have "map (snd \<circ> content_and_type) blocks
         = map snd [(js ''aaaaa'', NORMAL), (js ''bbbbb'', NORMAL), (js ''[&$]c'', SPECIAL_TRIGGER),
            (js ''c'', POST_SPECIAL), (js ''ddddd'', POST_SPECIAL)]"
    by (simp only: map_map [symmetric])
  then have c: "map block_type blocks
         = [NORMAL, NORMAL, SPECIAL_TRIGGER, POST_SPECIAL, POST_SPECIAL]"
    by (simp add: comp_def content_and_type_def)
  have "\<exists>blocks. splitTextWith 5 marker (js ''t'') scenario_text = Some blocks
         \<and> map block_type blocks
             = [NORMAL, NORMAL, SPECIAL_TRIGGER, POST_SPECIAL, POST_SPECIAL]
         \<and> (\<exists>n k. map block_type blocks = replicate n NORMAL
               \<or> map block_type blocks
                   = replicate n NORMAL @ SPECIAL_TRIGGER # replicate k POST_SPECIAL)"
    by (rule exI [of _ blocks]) (intro conjI r c p)
  then show ?thesis by (intro conjI five_positive)
qed

text \<open>
  C4 (a marker cut in two). With the constants of the source, the text of 4948 letters
  \<open>a\<close> followed by \<open>[&$]\<close> contains the marker after normalization, but the hard break
  at 4950 falls between \<open>[&\<close> and \<open>$]\<close>: \<open>splitText\<close> returns two blocks, both
  \<open>NORMAL\<close>, and none is \<open>SPECIAL_TRIGGER\<close>.
\<close>

theorem marker_missed_at_hard_break:
  "str_includes (replace_crlf (replicate 4948 0x61 @ marker)) marker
   \<and> map_option (map content_and_type) (splitText fileId (replicate 4948 0x61 @ marker))
       = Some [(replicate 4948 0x61 @ [0x5B, 0x26], NORMAL), ([0x24, 0x5D], NORMAL)]"
proof -
  have m: "2 \<le> MAX_CHARS" and n: "MAX_CHARS - 2 = 4948" by (simp_all add: MAX_CHARS_def)
  have "str_includes (replicate 4948 0x61 @ marker) marker"
    unfolding str_includes_iff by (rule exI [of _ "replicate 4948 0x61"], rule exI [of _ "[]"]) simp
  with marker_across_hard_break(1) [OF m] marker_across_hard_break(2) [OF m, where f = fileId]
  show ?thesis
    by (simp only: n splitText_def)
qed

text \<open>
  C5 (the run token). For every text, every maximum of at least 1 and any two values of
  the run token \<open>fileId\<close>, the two runs of \<open>splitText\<close> return blocks with the same
  contents and the same categories, in the same order. Only \<open>block_id\<close> depends on the
  token.
\<close>

theorem run_token_independent:
  assumes "1 \<le> maxChars"
  shows "map_option (map content_and_type) (splitTextWith maxChars mark fileId1 text)
           = map_option (map content_and_type) (splitTextWith maxChars mark fileId2 text)"
  unfolding splitTextWith_def by (rule splitLoop_token [OF assms]) simp_all

theorem run_token_independent_witness:
  "(1::nat) \<le> 5
   \<and> map_option (map content_and_type) (splitTextWith 5 marker (js ''lx1'') scenario_text)
       = map_option (map content_and_type) (splitTextWith 5 marker (js ''lx2'') scenario_text)
   \<and> map_option (map block_id) (splitTextWith 5 marker (js ''lx1'') scenario_text)
       = Some [js ''block-lx1-0-5'', js ''block-lx1-1-5'', js ''block-lx1-2-5'',
               js ''block-lx1-3-1'', js ''block-lx1-4-5'']
   \<and> map_option (map block_id) (splitTextWith 5 marker (js ''lx2'') scenario_text)
       = Some [js ''block-lx2-0-5'', js ''block-lx2-1-5'', js ''block-lx2-2-5'',
               js ''block-lx2-3-1'', js ''block-lx2-4-5'']"
proof -
  have a: "map_option (map block_id) (splitTextWith 5 marker (js ''lx1'') scenario_text)
       = Some [js ''block-lx1-0-5'', js ''block-lx1-1-5'', js ''block-lx1-2-5'',
               js ''block-lx1-3-1'', js ''block-lx1-4-5'']"
    by code_simp
  have b: "map_option (map block_id) (splitTextWith 5 marker (js ''lx2'') scenario_text)
       = Some [js ''block-lx2-0-5'', js ''block-lx2-1-5'', js ''block-lx2-2-5'',
               js ''block-lx2-3-1'', js ''block-lx2-4-5'']"
    by code_simp
  show ?thesis
    by (intro conjI five_positive a b
          run_token_independent [OF five_positive, of marker "js ''lx1''" scenario_text "js ''lx2''"])
qed

text \<open>
  C6 (normalization). \<open>replace_crlf\<close> puts one line feed in the place of every pair of
  a carriage return and a line feed of the input, and changes nothing else: at a pair
  the result is the result of what precedes it, a line feed, and the result of what
  follows it, and a text without such a pair is returned as it is. The scan does not
  look at its own output: the result contains a carriage return followed by a line feed
  exactly when the input contains a carriage return followed by such a pair. So the
  result is free of the pair for every input in which no carriage return stands
  immediately before a pair.
\<close>

theorem replace_crlf_single_pass:
  "replace_crlf (a @ [CR, LF] @ b) = replace_crlf a @ [LF] @ replace_crlf b
   \<and> (\<not> str_includes t [CR, LF] \<longrightarrow> replace_crlf t = t)
   \<and> str_includes (replace_crlf t) [CR, LF] = str_includes t [CR, CR, LF]"
  using replace_crlf_at_match [of a b] replace_crlf_no_match [of t]
    replace_crlf_leaves_crlf [of t]
  by blast

theorem replace_crlf_single_pass_witness:
  "replace_crlf (js ''ab'' @ [CR, LF] @ js ''cd'') = js ''ab'' @ [LF] @ js ''cd''
   \<and> str_includes [LF, CR, 0x61] [CR, LF] = False
   \<and> replace_crlf [LF, CR, 0x61] = [LF, CR, 0x61]
   \<and> str_includes (replace_crlf [LF, CR, 0x61]) [CR, LF] = False"
proof -
  have n: "\<not> str_includes [LF, CR, 0x61] [CR, LF]" by code_simp
  have m: "\<not> str_includes [LF, CR, 0x61] [CR, CR, LF]" by code_simp
  have ab: "replace_crlf (js ''ab'') = js ''ab''" and cd: "replace_crlf (js ''cd'') = js ''cd''"
    by code_simp+
  from replace_crlf_single_pass [of "js ''ab''" "js ''cd''" "[LF, CR, 0x61]"] n m ab cd
  show ?thesis by simp
qed

text \<open>
  The text of a carriage return, a carriage return and a line feed is normalized to a
  carriage return and a line feed: the result still contains the pair.
\<close>

theorem replace_crlf_keeps_a_pair:
  "replace_crlf [CR, CR, LF] = [CR, LF] \<and> str_includes (replace_crlf [CR, CR, LF]) [CR, LF]"
  by (simp add: CR_neq_LF)

lemma splitLoop_iterates:
  assumes m: "1 \<le> m"
  shows "\<exists>n. splitLoop m mk f t s = Some (result ((loop_body m mk f t ^^ n) s))
           \<and> (\<forall>k<n. currentPos ((loop_body m mk f t ^^ k) s) < length t)
           \<and> length t \<le> currentPos ((loop_body m mk f t ^^ n) s)"
proof (induction "length t - currentPos s" arbitrary: s rule: less_induct)
  case less
  let ?body = "loop_body m mk f t"
  show ?case
  proof (cases "currentPos s < length t")
    case False
    then have "splitLoop m mk f t s = Some (result ((?body ^^ 0) s))"
      by (subst splitLoop.simps) simp
    moreover have "\<forall>k<0. currentPos ((?body ^^ k) s) < length t" by simp
    moreover have "length t \<le> currentPos ((?body ^^ 0) s)" using False by simp
    ultimately show ?thesis by blast
  next
    case True
    have "length t - currentPos (?body s) < length t - currentPos s"
      using loop_body_advances [OF m True, of mk f] True by linarith
    then obtain n where r: "splitLoop m mk f t (?body s) = Some (result ((?body ^^ n) (?body s)))"
      and g: "\<forall>k<n. currentPos ((?body ^^ k) (?body s)) < length t"
      and e: "length t \<le> currentPos ((?body ^^ n) (?body s))"
      using less.hyps by blast
    have shift: "(?body ^^ k) (?body s) = (?body ^^ Suc k) s" for k
      by (simp add: funpow_swap1)
    have "splitLoop m mk f t s = splitLoop m mk f t (?body s)"
      using True by (subst splitLoop.simps) simp
    with r have "splitLoop m mk f t s = Some (result ((?body ^^ Suc n) s))"
      by (simp only: shift)
    moreover have "\<forall>k<Suc n. currentPos ((?body ^^ k) s) < length t"
    proof (intro allI impI)
      fix k assume k: "k < Suc n"
      show "currentPos ((?body ^^ k) s) < length t"
      proof (cases k)
        case 0
        with True show ?thesis by simp
      next
        case (Suc j)
        with k have "j < n" by simp
        with g have "currentPos ((?body ^^ j) (?body s)) < length t" by blast
        then show ?thesis unfolding Suc by (simp only: shift)
      qed
    qed
    moreover have "length t \<le> currentPos ((?body ^^ Suc n) s)"
      using e by (simp only: shift)
    ultimately show ?thesis by blast
  qed
qed

lemma funpow_loop_body_in_text:
  "currentPos s \<le> length t \<Longrightarrow> currentPos ((loop_body m mk f t ^^ n) s) \<le> length t"
  by (cases n) (simp_all add: loop_body_in_text del: currentPos_loop_body)

text \<open>
  C7 (termination). For every text and every maximum of at least 1, \<open>splitText\<close>
  returns, and what it returns is the list of blocks after some number \<open>n\<close> of
  iterations of the loop body from the initial state: the loop condition admits each of
  these \<open>n\<close> iterations, and after them \<open>currentPos\<close> is the length of the normalized
  text, so that the whole text is consumed. Every iteration that the loop condition
  admits moves \<open>currentPos\<close> strictly forward and not beyond the end of the text: a soft
  break lies strictly after \<open>currentPos\<close>, and after a hard break the next position is
  \<open>currentPos\<close> plus the maximum.
\<close>

theorem splitText_terminates:
  assumes "1 \<le> maxChars"
  shows "(\<exists>n. splitTextWith maxChars mark fileId text
              = Some (result ((loop_body maxChars mark fileId (replace_crlf text) ^^ n)
                   \<lparr> currentPos = 0, specialTriggered = False, result = [] \<rparr>))
            \<and> (\<forall>k<n. currentPos ((loop_body maxChars mark fileId (replace_crlf text) ^^ k)
                         \<lparr> currentPos = 0, specialTriggered = False, result = [] \<rparr>)
                       < length (replace_crlf text))
            \<and> currentPos ((loop_body maxChars mark fileId (replace_crlf text) ^^ n)
                   \<lparr> currentPos = 0, specialTriggered = False, result = [] \<rparr>)
                = length (replace_crlf text))
     \<and> (\<exists>blocks. splitTextWith maxChars mark fileId text = Some blocks)
     \<and> (\<forall>s. currentPos s < length t \<longrightarrow>
            currentPos s < currentPos (loop_body maxChars mark fileId t s)
            \<and> currentPos (loop_body maxChars mark fileId t s) \<le> length t)
     \<and> (\<forall>pos. break_kind_at maxChars t pos = Soft \<longrightarrow> pos < chunk_end maxChars t pos)
     \<and> (\<forall>pos. break_kind_at maxChars t pos = Hard \<longrightarrow>
            skip_newline t (chunk_end maxChars t pos) = pos + maxChars)"
proof -
  let ?t = "replace_crlf text"
  let ?s0 = "\<lparr> currentPos = 0, specialTriggered = False, result = [] \<rparr>"
  let ?body = "loop_body maxChars mark fileId ?t"
  from splitLoop_iterates [OF assms, of mark fileId ?t ?s0]
  obtain n where r: "splitTextWith maxChars mark fileId text = Some (result ((?body ^^ n) ?s0))"
    and g: "\<forall>k<n. currentPos ((?body ^^ k) ?s0) < length ?t"
    and e: "length ?t \<le> currentPos ((?body ^^ n) ?s0)"
    unfolding splitTextWith_def by blast
  have "currentPos ((?body ^^ n) ?s0) \<le> length ?t"
    by (rule funpow_loop_body_in_text) simp
  with e have c: "currentPos ((?body ^^ n) ?s0) = length ?t" by simp
  have run: "\<exists>n. splitTextWith maxChars mark fileId text = Some (result ((?body ^^ n) ?s0))
            \<and> (\<forall>k<n. currentPos ((?body ^^ k) ?s0) < length ?t)
            \<and> currentPos ((?body ^^ n) ?s0) = length ?t"
    by (rule exI [of _ n]) (intro conjI r g c)
  from r have ret: "\<exists>blocks. splitTextWith maxChars mark fileId text = Some blocks" by blast
  have step: "\<forall>s. currentPos s < length t \<longrightarrow>
            currentPos s < currentPos (loop_body maxChars mark fileId t s)
            \<and> currentPos (loop_body maxChars mark fileId t s) \<le> length t"
    using loop_body_advances [OF assms, of _ t mark fileId] loop_body_in_text [of maxChars mark fileId t]
    by blast
  have soft: "\<forall>pos. break_kind_at maxChars t pos = Soft \<longrightarrow> pos < chunk_end maxChars t pos"
    by (simp add: soft_break)
  have hard: "\<forall>pos. break_kind_at maxChars t pos = Hard \<longrightarrow>
            skip_newline t (chunk_end maxChars t pos) = pos + maxChars"
  proof (intro allI impI)
    fix pos
    assume "break_kind_at maxChars t pos = Hard"
    then show "skip_newline t (chunk_end maxChars t pos) = pos + maxChars"
      using hard_break [OF assms, of t pos] by (auto simp: skip_newline_def)
  qed
  show ?thesis by (intro conjI run ret step soft hard)
qed

theorem splitText_terminates_witness:
  "(1::nat) \<le> 5
   \<and> (\<exists>n. splitTextWith 5 marker (js ''t'') scenario_text
              = Some (result ((loop_body 5 marker (js ''t'') scenario_text ^^ n)
                   \<lparr> currentPos = 0, specialTriggered = False, result = [] \<rparr>))
            \<and> currentPos ((loop_body 5 marker (js ''t'') scenario_text ^^ n)
                   \<lparr> currentPos = 0, specialTriggered = False, result = [] \<rparr>)
                = length scenario_text)
   \<and> length scenario_text = 23
   \<and> (\<exists>blocks. splitTextWith 5 marker (js ''t'') scenario_text = Some blocks)
   \<and> currentPos \<lparr> currentPos = 0, specialTriggered = False, result = [] \<rparr>
       < length scenario_text
   \<and> currentPos \<lparr> currentPos = 0, specialTriggered = False, result = [] \<rparr>
       < currentPos (loop_body 5 marker (js ''t'') scenario_text
           \<lparr> currentPos = 0, specialTriggered = False, result = [] \<rparr>)
   \<and> break_kind_at 5 scenario_text 0 = Soft \<and> 0 < chunk_end 5 scenario_text 0
   \<and> break_kind_at 5 scenario_text 6 = Hard
   \<and> skip_newline scenario_text (chunk_end 5 scenario_text 6) = 6 + 5"
proof -
  let ?s0 = "\<lparr> currentPos = 0, specialTriggered = False, result = [] \<rparr>"
  note T = splitText_terminates [OF five_positive, of marker "js ''t''" scenario_text scenario_text]
  have len: "length scenario_text = 23" by code_simp
  have l: "currentPos ?s0 < length scenario_text" by code_simp
  have s: "break_kind_at 5 scenario_text 0 = Soft" by code_simp
  have h: "break_kind_at 5 scenario_text 6 = Hard" by code_simp
  from T obtain n where
    "splitTextWith 5 marker (js ''t'') scenario_text
       = Some (result ((loop_body 5 marker (js ''t'') scenario_text ^^ n) ?s0))"
    and "currentPos ((loop_body 5 marker (js ''t'') scenario_text ^^ n) ?s0)
           = length scenario_text"
    unfolding scenario_normalized by blast
  then have run: "\<exists>n. splitTextWith 5 marker (js ''t'') scenario_text
              = Some (result ((loop_body 5 marker (js ''t'') scenario_text ^^ n) ?s0))
            \<and> currentPos ((loop_body 5 marker (js ''t'') scenario_text ^^ n) ?s0)
                = length scenario_text"
    by blast
  from T have r: "\<exists>blocks. splitTextWith 5 marker (js ''t'') scenario_text = Some blocks"
    by blast
  from T l have a: "currentPos ?s0 < currentPos (loop_body 5 marker (js ''t'') scenario_text ?s0)"
    by blast
  from T s have b: "0 < chunk_end 5 scenario_text 0" by blast
  from T h have c: "skip_newline scenario_text (chunk_end 5 scenario_text 6) = 6 + 5" by blast
  show ?thesis by (intro conjI five_positive run len r l a s b h c)
qed

text \<open>
  C8 (scenario 3). With a maximum of 5 and the marker \<open>[&$]\<close>, the text
  \<open>aaaaa\<close>, line feed, \<open>bbbbb[&$]cc\<close>, line feed, \<open>ddddd\<close> yields exactly five
  blocks: \<open>aaaaa\<close> and \<open>bbbbb\<close>, both \<open>NORMAL\<close>, then \<open>[&$]c\<close>, which is
  \<open>SPECIAL_TRIGGER\<close>, then \<open>c\<close> and \<open>ddddd\<close>, both \<open>POST_SPECIAL\<close>.
\<close>

theorem scenario_3_blocks:
  "map_option (map content_and_type)
     (splitTextWith 5 marker fileId
        (js ''aaaaa'' @ [LF] @ js ''bbbbb[&$]cc'' @ [LF] @ js ''ddddd''))
   = Some [(js ''aaaaa'', NORMAL), (js ''bbbbb'', NORMAL), (js ''[&$]c'', SPECIAL_TRIGGER),
           (js ''c'', POST_SPECIAL), (js ''ddddd'', POST_SPECIAL)]"
  using scenario_run [of fileId] by (simp only: scenario_text_def)

text \<open>
  C10 (no empty block). For every text and every maximum of at least 1, every block that
  \<open>splitText\<close> returns has a content of at least one code unit, also when the text
  begins or ends with a line feed or has two line feeds in a row.
\<close>

theorem blocks_nonempty:
  assumes "1 \<le> maxChars"
  shows "\<exists>blocks. splitTextWith maxChars mark fileId text = Some blocks
           \<and> (\<forall>b \<in> set blocks. content b \<noteq> [])"
proof -
  let ?t = "replace_crlf text"
  let ?I = "\<lambda>s::loop_state. \<forall>b \<in> set (result s). content b \<noteq> []"
  have "\<exists>s'::loop_state. splitTextWith maxChars mark fileId text = Some (result s') \<and> ?I s'
          \<and> length ?t \<le> currentPos s'"
  proof (rule splitTextWith_rule [where I = ?I, OF assms])
    show "?I \<lparr> currentPos = 0, specialTriggered = False, result = [] \<rparr>" by simp
  next
    fix s :: loop_state
    assume inv: "?I s" and run: "currentPos s < length ?t"
    have "0 < length (str_slice ?t (currentPos s) (chunk_end maxChars ?t (currentPos s)))"
      using chunk_end_gt [OF assms run] chunk_end_le_length [of maxChars ?t "currentPos s"]
      by (simp add: length_slice)
    with inv show "?I (loop_body maxChars mark fileId ?t s)"
      by (auto simp: result_loop_body)
  qed
  then show ?thesis by blast
qed

theorem blocks_nonempty_witness:
  "(1::nat) \<le> 5
   \<and> (\<exists>blocks. splitTextWith 5 marker (js ''t'') newline_text = Some blocks
         \<and> map content blocks = [[LF, LF] @ js ''ab'' @ [LF], js ''cdefg'', js ''h'' @ [LF]]
         \<and> content (blocks ! 0) \<noteq> [] \<and> content (blocks ! 2) \<noteq> [])"
proof -
  from blocks_nonempty [OF five_positive, of marker "js ''t''" newline_text]
  obtain blocks where r: "splitTextWith 5 marker (js ''t'') newline_text = Some blocks"
    and b: "\<forall>b \<in> set blocks. content b \<noteq> []"
    by blast
  have "map_option (map content) (splitTextWith 5 marker (js ''t'') newline_text)
          = Some [[LF, LF] @ js ''ab'' @ [LF], js ''cdefg'', js ''h'' @ [LF]]"
    by code_simp
  with r have c: "map content blocks = [[LF, LF] @ js ''ab'' @ [LF], js ''cdefg'', js ''h'' @ [LF]]"
    by simp
  then have "length (map content blocks) = 3" by simp
  then have "length blocks = 3" by simp
  then have "blocks ! 0 \<in> set blocks" and "blocks ! 2 \<in> set blocks" by simp_all
  with b have b0: "content (blocks ! 0) \<noteq> []" and b2: "content (blocks ! 2) \<noteq> []"
    by blast+
  have "\<exists>blocks. splitTextWith 5 marker (js ''t'') newline_text = Some blocks
         \<and> map content blocks = [[LF, LF] @ js ''ab'' @ [LF], js ''cdefg'', js ''h'' @ [LF]]
         \<and> content (blocks ! 0) \<noteq> [] \<and> content (blocks ! 2) \<noteq> []"
    by (rule exI [of _ blocks]) (intro conjI r c b0 b2)
  then show ?thesis by (intro conjI five_positive)
qed

end
